theory Spec2Isabelle
  imports Complex_Main "HOL-Library.Word"
begin

unbundle bit_operations_syntax

section \<open>The noise channel\<close>

text \<open>
  The C++ type \<open>int\<close> is modelled by \<^typ>\<open>int\<close>: every value the channel computes is far
  from the 32-bit limits.  \<open>std::uint8_t\<close> is \<^typ>\<open>8 word\<close> and \<open>std::uint16_t\<close> is
  \<^typ>\<open>16 word\<close>.  An operand of type \<open>std::uint8_t\<close> is promoted to \<open>int\<close> before
  \<open>&\<close> and \<open>>>\<close> are applied, which is \<^const>\<open>uint\<close> here.

  Where the C++ has no defined behaviour (an array access outside its bounds, a division
  by zero, a shift by a negative count or by the width of \<open>int\<close> or more) the model
  returns a \<open>fault\<close>.
\<close>

datatype fault = IndexOutOfBounds | DivisionByZero | ShiftOutOfRange

subsection \<open>Sequencer state\<close>

text \<open>
  Modelled from the spec: the enumeration \<open>Envelope::Direction\<close>, declared in the
  sequencer's header, with the members \<open>Increment\<close> and \<open>Decrement\<close> the spec names.
  \<open>Write\<close> casts bit 3 of the envelope register to it and \<open>Read\<close> casts it back; the
  enumerators are numbered as the register of the hardware is laid out, a clear bit
  for \<open>Decrement\<close> and a set bit for \<open>Increment\<close>.
\<close>

datatype Direction = Decrement | Increment

fun int_of_Direction :: "Direction \<Rightarrow> int" where
  "int_of_Direction Decrement = 0"
| "int_of_Direction Increment = 1"

definition Direction_of_int :: "int \<Rightarrow> Direction" where
  "Direction_of_int n = (if n = 0 then Decrement else Increment)"

text \<open>
  Modelled from the spec: the fields of the envelope and of the sequencer that
  \<open>Generate\<close>, \<open>Read\<close> and \<open>Write\<close> use.  The length counter is called \<open>length\<close> in the
  source.
\<close>

record Envelope =
  divider :: int
  direction :: Direction
  initial_volume :: int
  current_volume :: int
  active :: bool

record Sequencer =
  length_seq :: int
  envelope :: Envelope

subsection \<open>Channel state\<close>

text \<open>
  The field \<open>scheduler\<close> stands for the scheduler the channel is bound to: it lists the
  delays of the calls \<open>scheduler.Add(delay, event_cb)\<close> the channel has made, oldest
  first.
\<close>

record NoiseChannel =
  sequencer :: Sequencer
  frequency_shift :: int
  frequency_ratio :: int
  width :: int
  length_enable :: bool
  dac_enable :: bool
  enabled :: bool
  lfsr :: "16 word"
  sample :: int
  skip_count :: int
  scheduler :: "int list"

subsection \<open>Arrays and division\<close>

definition lfsr_xor :: "16 word list" where
  "lfsr_xor = [0x6000, 0x60]"

definition lfsr_init :: "16 word list" where
  "lfsr_init = [0x4000, 0x0040]"

definition array_at :: "'a list \<Rightarrow> int \<Rightarrow> fault + 'a" where
  "array_at xs i =
     (if 0 \<le> i \<and> i < int (length xs) then Inr (xs ! nat i) else Inl IndexOutOfBounds)"

text \<open>Division of C++ \<open>int\<close>s truncates towards zero.\<close>

definition int_div :: "int \<Rightarrow> int \<Rightarrow> fault + int" where
  "int_div a b =
     (if b = 0 then Inl DivisionByZero else Inr (sgn a * sgn b * (\<bar>a\<bar> div \<bar>b\<bar>)))"

subsection \<open>Generate\<close>

text \<open>
  One shift of the register, as both the head of \<open>Generate\<close> and the body of its loop
  do it: \<open>carry = lfsr & 1; lfsr >>= 1; if (carry) lfsr ^= lfsr_xor[width];\<close>.  The array
  is read only when the carry is set.
\<close>

definition shift_lfsr :: "int \<Rightarrow> 16 word \<Rightarrow> fault + 16 word" where
  "shift_lfsr w l =
     (let carry = uint (l AND 1);
          l' = drop_bit 1 l
      in if carry \<noteq> 0
         then (case array_at lfsr_xor w of
                 Inl e \<Rightarrow> Inl e
               | Inr m \<Rightarrow> Inr (l' XOR m))
         else Inr l')"

text \<open>The loop \<open>for (int i = 0; i < skip_count; i++)\<close>.\<close>

function skip_loop :: "int \<Rightarrow> int \<Rightarrow> int \<Rightarrow> 16 word \<Rightarrow> fault + 16 word" where
  "skip_loop i n w l =
     (if i < n
      then (case shift_lfsr w l of
              Inl e \<Rightarrow> Inl e
            | Inr l' \<Rightarrow> skip_loop (i + 1) n w l')
      else Inr l)"
  by pat_completeness auto
termination
  by (relation "measure (\<lambda>(i, n, w, l). nat (n - i))") auto

declare skip_loop.simps [simp del]

text \<open>
  \<open>Generate\<close> takes the two collaborators it calls as parameters:
  \<open>GetSynthesisInterval\<close>, a member function declared in the channel's header, and
  \<open>GetSampleInterval\<close>, the value \<open>bias.GetSampleInterval()\<close> returns at this firing.
\<close>

definition Generate ::
  "(int \<Rightarrow> int \<Rightarrow> int) \<Rightarrow> int \<Rightarrow> int \<Rightarrow> NoiseChannel \<Rightarrow> fault + NoiseChannel" where
  "Generate GetSynthesisInterval GetSampleInterval cycles_late s =
     (if length_enable s \<and> length_seq (sequencer s) \<le> 0
      then Inr (s\<lparr>enabled := False, sample := 0,
                  scheduler := scheduler s @ [GetSynthesisInterval 7 15 - cycles_late]\<rparr>)
      else
        (let carry = uint (lfsr s AND 1) in
         (case shift_lfsr (width s) (lfsr s) of
            Inl e \<Rightarrow> Inl e
          | Inr l1 \<Rightarrow>
             (let sample1 = (if carry \<noteq> 0 then 8 else - 8);
                  sample2 = sample1 * current_volume (envelope (sequencer s));
                  sample3 = (if \<not> dac_enable s then 0 else sample2)
              in (case skip_loop 0 (skip_count s) (width s) l1 of
                    Inl e \<Rightarrow> Inl e
                  | Inr l2 \<Rightarrow>
                     (let noise_interval =
                            GetSynthesisInterval (frequency_ratio s) (frequency_shift s);
                          mixer_interval = GetSampleInterval
                      in if noise_interval < mixer_interval
                         then (case int_div mixer_interval noise_interval of
                                 Inl e \<Rightarrow> Inl e
                               | Inr q \<Rightarrow>
                                  Inr (s\<lparr>lfsr := l2, sample := sample3,
                                         skip_count := q - 1,
                                         scheduler :=
                                           scheduler s @ [mixer_interval - cycles_late]\<rparr>))
                         else Inr (s\<lparr>lfsr := l2, sample := sample3, skip_count := 0,
                                     scheduler :=
                                       scheduler s @ [noise_interval - cycles_late]\<rparr>)))))))"

subsection \<open>Reset\<close>

text \<open>
  \<open>sequencer.Reset()\<close> is a parameter: the sequencer's member functions are declared in
  its header.
\<close>

definition Reset ::
  "(int \<Rightarrow> int \<Rightarrow> int) \<Rightarrow> (Sequencer \<Rightarrow> Sequencer) \<Rightarrow> NoiseChannel \<Rightarrow> NoiseChannel" where
  "Reset GetSynthesisInterval Sequencer_Reset s =
     s\<lparr>sequencer := Sequencer_Reset (sequencer s),
       frequency_shift := 0, frequency_ratio := 0, width := 0,
       length_enable := False, dac_enable := False, enabled := False,
       lfsr := 0, sample := 0, skip_count := 0,
       scheduler := scheduler s @ [GetSynthesisInterval 7 15]\<rparr>"

subsection \<open>Read\<close>

text \<open>
  \<open>Read\<close> is a member function that is not \<open>const\<close>, so the model returns the channel
  together with the byte.  The \<open>int\<close> the source computes is converted to
  \<open>std::uint8_t\<close> on return, which is \<^const>\<open>word_of_int\<close>.
\<close>

definition Read :: "int \<Rightarrow> NoiseChannel \<Rightarrow> 8 word \<times> NoiseChannel" where
  "Read offset s =
     (let envelope' = envelope (sequencer s)
      in if offset = 0 then (0, s)
         else if offset = 1 then
           (word_of_int (divider envelope' OR
                         push_bit 3 (int_of_Direction (direction envelope')) OR
                         push_bit 4 (initial_volume envelope')), s)
         else if offset = 2 \<or> offset = 3 then (0, s)
         else if offset = 4 then
           (word_of_int (frequency_ratio s OR
                         push_bit 3 (width s) OR
                         push_bit 4 (frequency_shift s)), s)
         else if offset = 5 then ((if length_enable s then 0x40 else 0), s)
         else (0, s))"

subsection \<open>Write\<close>

text \<open>The envelope part of \<open>case 1\<close>, in the order of the source's statements.\<close>

definition Write_envelope :: "int \<Rightarrow> Envelope \<Rightarrow> Envelope" where
  "Write_envelope v e =
     (let divider_old = divider e;
          direction_old = direction e;
          e1 = e\<lparr>divider := v AND 7,
                 direction := Direction_of_int (drop_bit 3 v AND 1),
                 initial_volume := drop_bit 4 v\<rparr>;
          e2 = (if divider_old = 0 \<and> active e1
                then e1\<lparr>current_volume := current_volume e1 + 1\<rparr>
                else if direction_old = Decrement
                then e1\<lparr>current_volume := current_volume e1 + 2\<rparr>
                else e1);
          e3 = (if direction_old \<noteq> direction e2
                then e2\<lparr>current_volume := 16 - current_volume e2\<rparr>
                else e2)
      in e3\<lparr>current_volume := current_volume e3 AND 15\<rparr>)"

text \<open>
  \<open>sequencer.Restart()\<close> is a parameter, like \<open>sequencer.Reset()\<close>.  An offset that is
  no case of the \<open>switch\<close> leaves the channel as it is.
\<close>

definition Write ::
  "(Sequencer \<Rightarrow> Sequencer) \<Rightarrow> int \<Rightarrow> 8 word \<Rightarrow> NoiseChannel \<Rightarrow> fault + NoiseChannel" where
  "Write Sequencer_Restart offset value s =
     (let v = uint value
      in if offset = 0 then
           Inr (s\<lparr>sequencer := (sequencer s)\<lparr>length_seq := 64 - (v AND 63)\<rparr>\<rparr>)
         else if offset = 1 then
           (let dac = (drop_bit 3 v \<noteq> 0)
            in Inr (s\<lparr>sequencer :=
                        (sequencer s)\<lparr>envelope :=
                                        Write_envelope v (envelope (sequencer s))\<rparr>,
                      dac_enable := dac,
                      enabled := (if \<not> dac then False else enabled s)\<rparr>))
         else if offset = 4 then
           Inr (s\<lparr>frequency_ratio := v AND 7,
                  width := drop_bit 3 v AND 1,
                  frequency_shift := drop_bit 4 v\<rparr>)
         else if offset = 5 then
           (let s1 = s\<lparr>length_enable := (v AND 0x40 \<noteq> 0)\<rparr>
            in if v AND 0x80 \<noteq> 0
               then (let s2 = (if dac_enable s1 then s1\<lparr>enabled := True\<rparr> else s1);
                         s3 = s2\<lparr>sequencer := Sequencer_Restart (sequencer s2)\<rparr>
                     in (case array_at lfsr_init (width s3) of
                           Inl e \<Rightarrow> Inl e
                         | Inr l \<Rightarrow> Inr (s3\<lparr>lfsr := l\<rparr>)))
               else Inr s1)
         else Inr s)"

section \<open>The mixer\<close>

subsection \<open>The host audio callback\<close>

text \<open>
  Modelled from the spec: the ring buffer of stereo frames, whose class is declared in a
  header of the signal-processing library.  \<open>frames\<close> are the frames available, oldest
  first; \<open>Available\<close> counts them, \<open>Read\<close> takes the oldest out, \<open>Peek\<close> looks at the one at
  an offset from the oldest without taking it out.  What \<open>Read\<close> and \<open>Peek\<close> return where
  no frame is available is whatever the storage holds, which is \<open>beyond\<close>.  A frame is
  the pair of its \<open>left\<close> and \<open>right\<close> sample.
\<close>

record 'f RingBuffer =
  frames :: "('f \<times> 'f) list"
  beyond :: "int \<Rightarrow> 'f \<times> 'f"

definition Available :: "'f RingBuffer \<Rightarrow> int" where
  "Available buffer = int (length (frames buffer))"

definition Buffer_Read :: "'f RingBuffer \<Rightarrow> ('f \<times> 'f) \<times> 'f RingBuffer" where
  "Buffer_Read buffer =
     (case frames buffer of
        [] \<Rightarrow> (beyond buffer 0, buffer)
      | f # fs \<Rightarrow> (f, buffer\<lparr>frames := fs\<rparr>))"

definition Peek :: "'f RingBuffer \<Rightarrow> int \<Rightarrow> 'f \<times> 'f" where
  "Peek buffer offset =
     (if 0 \<le> offset \<and> offset < Available buffer then frames buffer ! nat offset
      else beyond buffer offset)"

text \<open>A store \<open>stream[i] = v\<close> into the array the host handed over.\<close>

definition store :: "'a list \<Rightarrow> int \<Rightarrow> 'a \<Rightarrow> fault + 'a list" where
  "store xs i v =
     (if 0 \<le> i \<and> i < int (length xs) then Inr (xs[nat i := v]) else Inl IndexOutOfBounds)"

text \<open>
  The conversion of a sample to the format of the host,
  \<open>std::int16_t(std::round(sample * 32767.0))\<close>, is floating-point arithmetic and stays a
  parameter, \<open>to_int16\<close>.  The first loop of the callback reads, the second one peeks.
\<close>

function read_loop ::
  "('f \<Rightarrow> 16 word) \<Rightarrow> int \<Rightarrow> int \<Rightarrow> 'f RingBuffer \<Rightarrow> 16 word list
     \<Rightarrow> fault + (16 word list \<times> 'f RingBuffer)" where
  "read_loop to_int16 x samples buffer stream =
     (if x < samples
      then (let r = Buffer_Read buffer;
                sample = fst r;
                buffer' = snd r
            in (case store stream (x * 2 + 0) (to_int16 (fst sample)) of
                  Inl e \<Rightarrow> Inl e
                | Inr stream1 \<Rightarrow>
                   (case store stream1 (x * 2 + 1) (to_int16 (snd sample)) of
                      Inl e \<Rightarrow> Inl e
                    | Inr stream2 \<Rightarrow> read_loop to_int16 (x + 1) samples buffer' stream2)))
      else Inr (stream, buffer))"
  by pat_completeness auto
termination
  by (relation "measure (\<lambda>(c, x, samples, buffer, stream). nat (samples - x))") auto

declare read_loop.simps [simp del]

function peek_loop ::
  "('f \<Rightarrow> 16 word) \<Rightarrow> int \<Rightarrow> int \<Rightarrow> int \<Rightarrow> int \<Rightarrow> 'f RingBuffer \<Rightarrow> 16 word list
     \<Rightarrow> fault + 16 word list" where
  "peek_loop to_int16 x samples available y buffer stream =
     (if x < samples
      then (let sample = Peek buffer y;
                y1 = y + 1;
                y2 = (if y1 = available then 0 else y1)
            in (case store stream (x * 2 + 0) (to_int16 (fst sample)) of
                  Inl e \<Rightarrow> Inl e
                | Inr stream1 \<Rightarrow>
                   (case store stream1 (x * 2 + 1) (to_int16 (snd sample)) of
                      Inl e \<Rightarrow> Inl e
                    | Inr stream2 \<Rightarrow>
                       peek_loop to_int16 (x + 1) samples available y2 buffer stream2)))
      else Inr stream)"
  by pat_completeness auto
termination
  by (relation "measure (\<lambda>(c, x, samples, available, y, buffer, stream). nat (samples - x))")
     auto

declare peek_loop.simps [simp del]

text \<open>
  The callback gets the buffer of the mixer, the array of the host and its length in
  bytes, which is not negative; \<open>sizeof(std::int16_t)\<close> is 2.  It returns the array and
  the buffer.
\<close>

definition AudioCallback ::
  "('f \<Rightarrow> 16 word) \<Rightarrow> 'f RingBuffer \<Rightarrow> 16 word list \<Rightarrow> nat
     \<Rightarrow> fault + (16 word list \<times> 'f RingBuffer)" where
  "AudioCallback to_int16 buffer stream byte_len =
     (let samples = int (byte_len div 2 div 2);
          available = Available buffer
      in if available \<ge> 2 * samples
         then read_loop to_int16 0 samples buffer stream
         else (case peek_loop to_int16 0 samples available 0 buffer stream of
                 Inl e \<Rightarrow> Inl e
               | Inr stream' \<Rightarrow> Inr (stream', buffer)))"

subsection \<open>Tick\<close>

text \<open>
  Modelled from the spec: the resampler, whose class is declared in a header of the
  signal-processing library.  The model keeps the rates of the last call of
  \<open>SetSampleRates\<close> and the frames of the calls of \<open>Write\<close>, oldest first.

  The mixer computes a frame in \<open>float\<close>.  Its operands are integers, divided by 256 and
  by 512; such quotients and their sum are values of binary32 as long as the integers
  stay below \<open>2^23\<close> in magnitude, as the bytes of the latches and the samples of the
  channels do, so the arithmetic is that of the rationals.
\<close>

record Resampler =
  sample_rates :: "int \<times> int"
  written :: "(rat \<times> rat) list"

text \<open>
  Modelled from the spec: the fields of the mixer.  \<open>latch\<close> holds the two signed bytes
  \<open>latch[0]\<close> and \<open>latch[1]\<close>; \<open>psg1_sample\<close>, \<open>psg2_sample\<close> and \<open>psg3_sample\<close> are the
  \<open>sample\<close> fields of the three tone channels \<open>psg1\<close>, \<open>psg2\<close> and \<open>psg3\<close> that the
  constructor of the mixer binds; \<open>psg4_sample\<close> is the \<open>sample\<close> field of the fourth tone
  channel of the spec, the noise channel, which this mixer has commented out
  (\<open>//psg4.Reset();\<close>) and \<open>Tick\<close> does not read; \<open>bias_resolution\<close> is
  \<open>mmio.bias.resolution\<close> and \<open>event_countdown\<close> is \<open>event.countdown\<close>.
\<close>

record APU =
  latch :: "8 word \<times> 8 word"
  psg1_sample :: int
  psg2_sample :: int
  psg3_sample :: int
  psg4_sample :: int
  bias_resolution :: int
  resolution_old :: int
  event_countdown :: int
  resampler :: Resampler

definition shift_left :: "int \<Rightarrow> int \<Rightarrow> fault + int" where
  "shift_left a n = (if 0 \<le> n \<and> n < 32 then Inr (push_bit (nat n) a) else Inl ShiftOutOfRange)"

definition shift_right :: "int \<Rightarrow> int \<Rightarrow> fault + int" where
  "shift_right a n = (if 0 \<le> n \<and> n < 32 then Inr (drop_bit (nat n) a) else Inl ShiftOutOfRange)"

text \<open>The first statement of \<open>Tick\<close>; \<open>GetSampleRate\<close> is the rate of the audio device.\<close>

definition Tick_rates :: "int \<Rightarrow> APU \<Rightarrow> fault + APU" where
  "Tick_rates GetSampleRate s =
     (if bias_resolution s \<noteq> resolution_old s
      then (case shift_left 32768 (bias_resolution s) of
              Inl e \<Rightarrow> Inl e
            | Inr rate \<Rightarrow>
               Inr (s\<lparr>resampler := (resampler s)\<lparr>sample_rates := (rate, GetSampleRate)\<rparr>,
                      resolution_old := bias_resolution s\<rparr>))
      else Inr s)"

definition Tick :: "int \<Rightarrow> APU \<Rightarrow> fault + APU" where
  "Tick GetSampleRate s =
     (case Tick_rates GetSampleRate s of
        Inl e \<Rightarrow> Inl e
      | Inr s1 \<Rightarrow>
         (let frame =
                (of_int (sint (fst (latch s1))) / 256 +
                   of_int (psg1_sample s1 + psg2_sample s1 + psg3_sample s1) / 512,
                 of_int (sint (snd (latch s1))) / 256 +
                   of_int (psg1_sample s1 + psg2_sample s1 + psg3_sample s1) / 512);
              s2 = s1\<lparr>resampler :=
                         (resampler s1)\<lparr>written := written (resampler s1) @ [frame]\<rparr>\<rparr>
          in (case shift_right 512 (bias_resolution s2) of
                Inl e \<Rightarrow> Inl e
              | Inr d \<Rightarrow> Inr (s2\<lparr>event_countdown := event_countdown s2 + d\<rparr>))))"

section \<open>Reference definitions\<close>

text \<open>
  One raw step of the register in the words of the spec: take bit 0 as the carry, shift
  right by one, and XOR with the tap mask of the width if the carry was set.
\<close>

definition lfsr_step :: "int \<Rightarrow> 16 word \<Rightarrow> 16 word" where
  "lfsr_step w l =
     (if bit l 0 then drop_bit 1 l XOR (if w = 0 then 0x6000 else 0x60) else drop_bit 1 l)"


text \<open>
  Modelled from the spec: \<open>GetSynthesisInterval\<close>, which the channel's header declares,
  is \<open>divisor_table[frequency_ratio] << frequency_shift\<close> for a ratio from 0 to 7.  The
  theorems below hold for every function in its place; this one instantiates them.
\<close>

definition divisor_table :: "int list" where
  "divisor_table = [8, 16, 32, 48, 64, 80, 96, 112]"

definition GetSynthesisInterval_spec :: "int \<Rightarrow> int \<Rightarrow> int" where
  "GetSynthesisInterval_spec ratio shift = push_bit (nat shift) (divisor_table ! nat ratio)"

text \<open>
  The channel as \<open>Reset\<close> leaves it, with a cleared sequencer and nothing scheduled: the
  state the instances below start from.
\<close>

definition cleared_channel :: NoiseChannel where
  "cleared_channel =
     \<lparr>sequencer =
        \<lparr>length_seq = 0,
         envelope = \<lparr>divider = 0, direction = Decrement, initial_volume = 0,
                     current_volume = 0, active = False\<rparr>\<rparr>,
      frequency_shift = 0, frequency_ratio = 0, width = 0,
      length_enable = False, dac_enable = False, enabled = False,
      lfsr = 0, sample = 0, skip_count = 0, scheduler = []\<rparr>"

text \<open>What every reachable channel satisfies: the width is a bit and no step is owed.\<close>

definition channel_ok :: "NoiseChannel \<Rightarrow> bool" where
  "channel_ok s = ((width s = 0 \<or> width s = 1) \<and> 0 \<le> skip_count s)"








text \<open>
  A buffer that holds three frames, over storage that is silent elsewhere: the buffer
  the instances of the callback start from.
\<close>

definition silence :: "int \<Rightarrow> 16 word \<times> 16 word" where
  "silence offset = (0, 0)"

definition three_frames :: "16 word RingBuffer" where
  "three_frames = \<lparr>frames = [(1, 2), (3, 4), (5, 6)], beyond = silence\<rparr>"

section \<open>Properties of the noise channel\<close>

subsection \<open>The shift register\<close>

lemma carry_bit0: "(uint (l AND 1) \<noteq> 0) = bit l 0" for l :: "16 word"
proof -
  have "l AND 1 = of_bool (odd l)" by (simp add: and_one_eq mod_2_eq_odd)
  then show ?thesis by (cases "odd l") (simp_all add: bit_0)
qed

lemma shift_lfsr_step:
  "w = 0 \<or> w = 1 \<Longrightarrow> shift_lfsr w l = Inr (lfsr_step w l)"
  by (auto simp: shift_lfsr_def lfsr_step_def Let_def carry_bit0 array_at_def lfsr_xor_def)

lemma skip_loop_steps:
  "w = 0 \<or> w = 1 \<Longrightarrow> skip_loop i n w l = Inr ((lfsr_step w ^^ nat (n - i)) l)"
proof (induction i n w l rule: skip_loop.induct)
  case (1 i n w l)
  show ?case
  proof (cases "i < n")
    case True
    then have "nat (n - i) = Suc (nat (n - (i + 1)))" by simp
    with True 1 show ?thesis
      by (subst skip_loop.simps) (simp add: shift_lfsr_step funpow_Suc_right del: funpow.simps)
  next
    case False
    then show ?thesis by (subst skip_loop.simps) simp
  qed
qed

lemma int_div_pos: "0 < b \<Longrightarrow> 0 \<le> a \<Longrightarrow> int_div a b = Inr (a div b)"
  by (simp add: int_div_def sgn_if)

subsection \<open>A firing that the length gate lets through\<close>

lemma Generate_running:
  assumes "\<not> (length_enable s \<and> length_seq (sequencer s) \<le> 0)"
    and "width s = 0 \<or> width s = 1"
    and "G (frequency_ratio s) (frequency_shift s) < m \<longrightarrow>
           0 < G (frequency_ratio s) (frequency_shift s)"
  shows "Generate G m late s =
     Inr (s\<lparr>lfsr := (lfsr_step (width s) ^^ nat (skip_count s)) (lfsr_step (width s) (lfsr s)),
            sample := (if \<not> dac_enable s then 0
                       else (if bit (lfsr s) 0 then 8 else - 8)
                              * current_volume (envelope (sequencer s))),
            skip_count := (if G (frequency_ratio s) (frequency_shift s) < m
                           then m div G (frequency_ratio s) (frequency_shift s) - 1 else 0),
            scheduler := scheduler s @
              [(if G (frequency_ratio s) (frequency_shift s) < m then m
                else G (frequency_ratio s) (frequency_shift s)) - late]\<rparr>)"
proof -
  let ?ni = "G (frequency_ratio s) (frequency_shift s)"
  have g: "(length_enable s \<and> length_seq (sequencer s) \<le> 0) = False"
    using assms(1) by simp
  have a: "shift_lfsr (width s) (lfsr s) = Inr (lfsr_step (width s) (lfsr s))"
    using assms(2) by (rule shift_lfsr_step)
  have b: "skip_loop 0 (skip_count s) (width s) l =
             Inr ((lfsr_step (width s) ^^ nat (skip_count s)) l)" for l
    using assms(2) by (simp add: skip_loop_steps)
  show ?thesis
  proof (cases "?ni < m")
    case True
    with assms(3) have "int_div m ?ni = Inr (m div ?ni)"
      by (simp add: int_div_pos)
    with True show ?thesis
      by (simp add: Generate_def g Let_def a b carry_bit0)
  next
    case False
    then show ?thesis
      by (simp add: Generate_def g Let_def a b carry_bit0)
  qed
qed

text \<open>
  The two hypotheses on the state in the theorems on \<open>Generate\<close> hold of every channel
  the program reaches: \<open>Reset\<close> establishes them, and \<open>Write\<close> and \<open>Generate\<close> keep them,
  the latter when the synthesis interval is positive.
\<close>

lemma and_1_cases: "(x::int) AND 1 = 0 \<or> x AND 1 = 1"
  by (simp add: and_one_eq mod_2_eq_odd)

lemma channel_ok_Reset: "channel_ok (Reset G R s)"
  by (simp add: channel_ok_def Reset_def)

lemma channel_ok_Write:
  assumes "channel_ok s" and "Write R offset b s = Inr s'"
  shows "channel_ok s'"
proof -
  consider "offset = 0" | "offset = 1" | "offset = 4" | "offset = 5"
    | "offset \<noteq> 0 \<and> offset \<noteq> 1 \<and> offset \<noteq> 4 \<and> offset \<noteq> 5"
    by blast
  then show ?thesis
  proof cases
    case 3
    with assms and_1_cases [of "drop_bit 3 (uint b)"] show ?thesis
      by (auto simp: Write_def channel_ok_def Let_def)
  next
    case 4
    with assms show ?thesis
      by (auto simp: Write_def channel_ok_def Let_def array_at_def lfsr_init_def
               split: if_splits)
  qed (use assms in \<open>auto simp: Write_def channel_ok_def Let_def\<close>)
qed

lemma channel_ok_Generate:
  assumes "channel_ok s" and "0 < G (frequency_ratio s) (frequency_shift s)"
  shows "\<exists>s'. Generate G m late s = Inr s' \<and> channel_ok s'"
proof (cases "length_enable s \<and> length_seq (sequencer s) \<le> 0")
  case True
  with assms(1) show ?thesis by (simp add: Generate_def channel_ok_def)
next
  case False
  let ?ni = "G (frequency_ratio s) (frequency_shift s)"
  have "1 \<le> m div ?ni" if "?ni < m"
  proof -
    from assms(2) that have "0 < m div ?ni"
      using pos_imp_zdiv_pos_iff [of ?ni m] by simp
    then show ?thesis by simp
  qed
  with False assms show ?thesis
    by (auto simp: Generate_running channel_ok_def)
qed

text \<open>
  C1.  At a firing of \<open>Generate\<close> that the length gate does not silence, with
  \<open>noise_interval = GetSynthesisInterval(frequency_ratio, frequency_shift)\<close> and
  \<open>mixer_interval = bias.GetSampleInterval()\<close>: if \<open>noise_interval < mixer_interval\<close> then
  afterwards \<open>skip_count\<close> is \<open>mixer_interval / noise_interval - 1\<close> and the event is
  scheduled again after \<open>mixer_interval - cycles_late\<close> cycles; otherwise \<open>skip_count\<close> is 0
  and the event is scheduled again after \<open>noise_interval - cycles_late\<close> cycles.  In both
  cases the register has made \<open>skip_count + 1\<close> raw steps, for the \<open>skip_count\<close> on entry.
\<close>

theorem Generate_skip_count:
  assumes "\<not> (length_enable s \<and> length_seq (sequencer s) \<le> 0)"
    and "width s = 0 \<or> width s = 1"
    and "0 \<le> skip_count s"
    and "0 < G (frequency_ratio s) (frequency_shift s)"
  shows "\<exists>s'. Generate G m late s = Inr s' \<and>
           (let noise_interval = G (frequency_ratio s) (frequency_shift s);
                mixer_interval = m
            in (if noise_interval < mixer_interval
                then skip_count s' = mixer_interval div noise_interval - 1 \<and>
                     scheduler s' = scheduler s @ [mixer_interval - late]
                else skip_count s' = 0 \<and>
                     scheduler s' = scheduler s @ [noise_interval - late])) \<and>
           lfsr s' = (lfsr_step (width s) ^^ nat (skip_count s + 1)) (lfsr s)"
proof -
  have n: "nat (skip_count s + 1) = Suc (nat (skip_count s))"
    using assms(3) by simp
  show ?thesis
    using assms by (simp add: Generate_running n funpow_Suc_right Let_def del: funpow.simps)
qed

theorem Generate_skip_count_witness:
  "\<exists>s'. Generate GetSynthesisInterval_spec 128 2
           (cleared_channel\<lparr>lfsr := 0x4000, skip_count := 3\<rparr>) = Inr s' \<and>
         skip_count s' = 15 \<and> scheduler s' = [126] \<and> lfsr s' = 0x0400"
proof -
  have l: "(lfsr_step 0 ^^ 4) (0x4000 :: 16 word) = 0x0400"
    by code_simp
  have g: "GetSynthesisInterval_spec 0 0 = 8"
    by (simp add: GetSynthesisInterval_spec_def divisor_table_def)
  show ?thesis
    using Generate_skip_count
      [of "cleared_channel\<lparr>lfsr := 0x4000, skip_count := 3\<rparr>"
          GetSynthesisInterval_spec 128 2]
    by (simp add: cleared_channel_def l g)
qed

text \<open>
  C4.  When \<open>length_enable\<close> is set and the length counter is not positive at a firing,
  \<open>Generate\<close> clears \<open>enabled\<close>, sets \<open>sample\<close> to 0, leaves the register alone and adds
  exactly one event, after \<open>GetSynthesisInterval(7, 15) - cycles_late\<close> cycles.
\<close>

theorem Generate_length_expired:
  assumes "length_enable s" and "length_seq (sequencer s) \<le> 0"
  shows "Generate G m late s =
           Inr (s\<lparr>enabled := False, sample := 0,
                  scheduler := scheduler s @ [G 7 15 - late]\<rparr>) \<and>
         (\<exists>s'. Generate G m late s = Inr s' \<and> \<not> enabled s' \<and> sample s' = 0 \<and>
               lfsr s' = lfsr s \<and> skip_count s' = skip_count s \<and>
               scheduler s' = scheduler s @ [G 7 15 - late])"
  using assms by (simp add: Generate_def)

theorem Generate_length_expired_witness:
  "\<exists>s'. Generate GetSynthesisInterval_spec 128 3
           (cleared_channel\<lparr>length_enable := True, enabled := True, lfsr := 0x4000,
                             sample := 40\<rparr>) = Inr s' \<and>
         \<not> enabled s' \<and> sample s' = 0 \<and> lfsr s' = 0x4000 \<and>
         scheduler s' = [3670013]"
proof -
  have g: "GetSynthesisInterval_spec 7 15 = 3670016"
    by (simp add: GetSynthesisInterval_spec_def divisor_table_def)
  show ?thesis
    using Generate_length_expired
      [of "cleared_channel\<lparr>length_enable := True, enabled := True, lfsr := 0x4000,
                              sample := 40\<rparr>" GetSynthesisInterval_spec 128 3]
    by (simp add: cleared_channel_def g)
qed

text \<open>
  C8.  At a firing that the length gate lets through, the sample is computed from bit 0
  of the register: \<open>+8\<close> if it is set and \<open>-8\<close> if not, times \<open>current_volume\<close>, and 0
  whenever \<open>dac_enable\<close> is false.  The register is shifted right by one and, if the bit
  was set, XORed with \<open>0x6000\<close> for width 0 and \<open>0x0060\<close> for width 1; the steps the
  channel skips follow.
\<close>

theorem Generate_sample:
  assumes "\<not> (length_enable s \<and> length_seq (sequencer s) \<le> 0)"
    and "width s = 0 \<or> width s = 1"
    and "0 < G (frequency_ratio s) (frequency_shift s)"
  shows "\<exists>s'. Generate G m late s = Inr s' \<and>
           sample s' =
             (if \<not> dac_enable s then 0
              else (if bit (lfsr s) 0 then 8 else - 8)
                     * current_volume (envelope (sequencer s))) \<and>
           lfsr s' =
             (lfsr_step (width s) ^^ nat (skip_count s))
               (if bit (lfsr s) 0
                then drop_bit 1 (lfsr s) XOR (if width s = 0 then 0x6000 else 0x0060)
                else drop_bit 1 (lfsr s))"
  using assms by (simp add: Generate_running) (simp add: lfsr_step_def)

theorem Generate_sample_witness:
  "\<exists>s'. Generate GetSynthesisInterval_spec 8 0
           (cleared_channel
              \<lparr>sequencer :=
                 \<lparr>length_seq = 0,
                  envelope = \<lparr>divider = 0, direction = Decrement, initial_volume = 5,
                              current_volume = 5, active = False\<rparr>\<rparr>,
               dac_enable := True, lfsr := 0x0001\<rparr>) = Inr s' \<and>
         sample s' = 40 \<and> lfsr s' = 0x6000"
proof -
  have g: "GetSynthesisInterval_spec 0 0 = 8"
    by (simp add: GetSynthesisInterval_spec_def divisor_table_def)
  have l: "drop_bit 1 (1 :: 16 word) XOR 0x6000 = 0x6000"
    by code_simp
  show ?thesis
    using Generate_sample
      [of "cleared_channel
              \<lparr>sequencer :=
                 \<lparr>length_seq = 0,
                  envelope = \<lparr>divider = 0, direction = Decrement, initial_volume = 5,
                              current_volume = 5, active = False\<rparr>\<rparr>,
               dac_enable := True, lfsr := 0x0001\<rparr>" GetSynthesisInterval_spec 8 0]
    by (simp add: cleared_channel_def g l)
qed

subsection \<open>Register writes and reads\<close>


lemma Write_1:
  "Write R 1 b s =
     Inr (s\<lparr>sequencer :=
              (sequencer s)\<lparr>envelope := Write_envelope (uint b) (envelope (sequencer s))\<rparr>,
            dac_enable := (drop_bit 3 (uint b) \<noteq> 0),
            enabled := (if \<not> drop_bit 3 (uint b) \<noteq> 0 then False else enabled s)\<rparr>)"
  by (simp add: Write_def Let_def)

lemma Write_envelope_fields:
  "divider (Write_envelope v e) = v AND 7"
  "direction (Write_envelope v e) = Direction_of_int (drop_bit 3 v AND 1)"
  "initial_volume (Write_envelope v e) = drop_bit 4 v"
  by (simp_all add: Write_envelope_def Let_def)




lemma uint_and_exp: "(uint b AND 2 ^ n \<noteq> 0) = bit b n" for b :: "8 word"
  by (auto simp: and_exp_eq_0_iff_not_bit bit_uint_iff dest: bit_imp_le_length)

lemma uint_and_0x80: "(uint b AND 0x80 \<noteq> 0) = bit b 7" for b :: "8 word"
  using uint_and_exp [of b 7] by simp

lemma uint_and_0x40: "(uint b AND 0x40 \<noteq> 0) = bit b 6" for b :: "8 word"
  using uint_and_exp [of b 6] by simp

text \<open>
  C5.  A write to offset 5 of a byte with bit 7 set reseeds the register, to \<open>0x4000\<close>
  for width 0 and to \<open>0x0040\<close> for width 1, and restarts the sequencer, whatever
  \<open>dac_enable\<close> is; \<open>enabled\<close> becomes true if \<open>dac_enable\<close> is true and keeps its value
  otherwise.
\<close>

theorem Write_trigger:
  assumes "bit b 7" and "width s = 0 \<or> width s = 1"
  shows "\<exists>s'. Write R 5 b s = Inr s' \<and>
           lfsr s' = (if width s = 0 then 0x4000 else 0x0040) \<and>
           sequencer s' = R (sequencer s) \<and>
           enabled s' = (if dac_enable s then True else enabled s) \<and>
           dac_enable s' = dac_enable s \<and>
           length_enable s' = bit b 6"
  using assms
  by (auto simp: Write_def Let_def uint_and_0x80 uint_and_0x40 array_at_def lfsr_init_def)

theorem Write_trigger_witness:
  "\<exists>s'. Write (\<lambda>q. q\<lparr>length_seq := 64\<rparr>) 5 0x80
           (cleared_channel\<lparr>dac_enable := True, width := 1\<rparr>) = Inr s' \<and>
         lfsr s' = 0x0040 \<and> length_seq (sequencer s') = 64 \<and> enabled s' \<and>
         \<not> length_enable s'"
proof -
  have b7: "bit (0x80 :: 8 word) 7"
    by code_simp
  have b6: "\<not> bit (0x80 :: 8 word) 6"
    by code_simp
  have w: "width (cleared_channel\<lparr>dac_enable := True, width := 1\<rparr>) = 0 \<or>
           width (cleared_channel\<lparr>dac_enable := True, width := 1\<rparr>) = 1"
    by simp
  from Write_trigger [OF b7 w, of "\<lambda>q. q\<lparr>length_seq := 64\<rparr>"] b6
  show ?thesis
    by (auto simp: cleared_channel_def)
qed

lemma envelope_bits:
  "((x AND mask 3) OR push_bit 3 (drop_bit 3 x AND 1) OR push_bit 4 (drop_bit 4 x)) = (x::int)"
proof (rule bit_eqI)
  fix n :: nat
  have "n < 3 \<or> n = 3 \<or> 4 \<le> n" by arith
  then show "bit ((x AND mask 3) OR push_bit 3 (drop_bit 3 x AND 1) OR push_bit 4 (drop_bit 4 x)) n
      = bit x n"
    by (auto simp add: bit_simps bit_1_iff)
qed

lemma envelope_byte:
  "(uint b AND 7) OR push_bit 3 (int_of_Direction (Direction_of_int (drop_bit 3 (uint b) AND 1)))
     OR push_bit 4 (drop_bit 4 (uint b)) = uint b" for b :: "8 word"
proof -
  have d: "int_of_Direction (Direction_of_int (x AND 1)) = x AND 1" for x :: int
    by (simp add: Direction_of_int_def and_one_eq mod_2_eq_odd)
  have m: "(7::int) = mask 3" by (simp add: mask_eq_exp_minus_1)
  show ?thesis
    unfolding d m by (rule envelope_bits)
qed

text \<open>
  C7.  Writing a byte to offset 1 and reading offset 1 gives the byte back, put together
  as \<open>divider | direction << 3 | initial_volume << 4\<close> from the three fields the write
  decoded from it, whatever the rest of the channel holds.
\<close>

theorem Write_Read_envelope:
  "\<exists>s'. Write R 1 b s = Inr s' \<and>
     fst (Read 1 s') = b \<and>
     fst (Read 1 s') =
       word_of_int (divider (envelope (sequencer s')) OR
                    push_bit 3 (int_of_Direction (direction (envelope (sequencer s')))) OR
                    push_bit 4 (initial_volume (envelope (sequencer s')))) \<and>
     divider (envelope (sequencer s')) = uint b AND 7 \<and>
     direction (envelope (sequencer s')) = Direction_of_int (drop_bit 3 (uint b) AND 1) \<and>
     initial_volume (envelope (sequencer s')) = drop_bit 4 (uint b)"
  by (simp add: Write_1 Read_def Let_def Write_envelope_fields envelope_byte)










text \<open>
  C10.  \<open>Read\<close> changes nothing in the channel or its sequencer, and returns 0 for every
  offset other than 1, 4 and 5.
\<close>

theorem Read_no_effect:
  "snd (Read offset s) = s \<and>
   (offset \<noteq> 1 \<and> offset \<noteq> 4 \<and> offset \<noteq> 5 \<longrightarrow> fst (Read offset s) = 0)"
  by (simp add: Read_def Let_def)

theorem Read_no_effect_witness:
  "snd (Read 3 (cleared_channel\<lparr>length_enable := True\<rparr>)) =
     cleared_channel\<lparr>length_enable := True\<rparr> \<and>
   fst (Read 3 (cleared_channel\<lparr>length_enable := True\<rparr>)) = 0 \<and>
   fst (Read 7 (cleared_channel\<lparr>length_enable := True\<rparr>)) = 0"
  using Read_no_effect [of 3 "cleared_channel\<lparr>length_enable := True\<rparr>"]
    Read_no_effect [of 7 "cleared_channel\<lparr>length_enable := True\<rparr>"]
  by simp

section \<open>Properties of the mixer\<close>

lemma Tick_rates_fields:
  assumes "Tick_rates r s = Inr s1"
  shows "latch s1 = latch s" "psg1_sample s1 = psg1_sample s" "psg2_sample s1 = psg2_sample s"
    "psg3_sample s1 = psg3_sample s" "bias_resolution s1 = bias_resolution s"
    "event_countdown s1 = event_countdown s"
    "written (resampler s1) = written (resampler s)"
  using assms
  by (auto simp: Tick_rates_def split: if_splits sum.splits)

lemma Tick_rates_Inr:
  assumes "0 \<le> bias_resolution s" and "bias_resolution s < 32"
  shows "\<exists>s1. Tick_rates r s = Inr s1"
  using assms by (simp add: Tick_rates_def shift_left_def)

text \<open>
  C6, as the mixer is written.  A call of \<open>Tick\<close> writes to the resampler the frame
  \<open>(latch[0]/256 + S/512, latch[1]/256 + S/512)\<close>, with \<open>S\<close> the sum of the samples of the
  three tone channels \<open>psg1\<close>, \<open>psg2\<close> and \<open>psg3\<close>, whatever the sample of the noise
  channel is, and adds \<open>512 >> resolution\<close> to \<open>event.countdown\<close>.  With both latches at 0,
  one of the three at 40 and the other two at 0, the frame is \<open>(40/512, 40/512)\<close>.
\<close>

theorem Tick_frame:
  assumes "0 \<le> bias_resolution s" and "bias_resolution s < 32"
  shows "\<exists>s'. Tick r s = Inr s' \<and>
     (let S = psg1_sample s + psg2_sample s + psg3_sample s
      in written (resampler s') =
           written (resampler s) @
             [(of_int (sint (fst (latch s))) / 256 + of_int S / 512,
               of_int (sint (snd (latch s))) / 256 + of_int S / 512)]) \<and>
     event_countdown s' = event_countdown s + 512 div 2 ^ nat (bias_resolution s) \<and>
     (latch s = (0, 0) \<and>
      (psg1_sample s, psg2_sample s, psg3_sample s) \<in> {(40, 0, 0), (0, 40, 0), (0, 0, 40)}
      \<longrightarrow> written (resampler s') = written (resampler s) @ [(40 / 512, 40 / 512)])"
proof -
  from Tick_rates_Inr [OF assms] obtain s1 where s1: "Tick_rates r s = Inr s1" ..
  note f = Tick_rates_fields [OF s1]
  have d: "shift_right 512 (bias_resolution s) = Inr (512 div 2 ^ nat (bias_resolution s))"
    using assms by (simp add: shift_right_def drop_bit_eq_div)
  show ?thesis
    by (auto simp: Tick_def s1 f d Let_def)
qed

theorem Tick_frame_witness:
  "\<exists>s'. Tick 48000
           \<lparr>latch = (0, 0), psg1_sample = 0, psg2_sample = 40, psg3_sample = 0, psg4_sample = 0,
            bias_resolution = 1, resolution_old = 0, event_countdown = 7,
            resampler = \<lparr>sample_rates = (32768, 48000), written = []\<rparr>\<rparr> = Inr s' \<and>
         written (resampler s') = [(40 / 512, 40 / 512)] \<and> event_countdown s' = 263"
  using Tick_frame
    [of "\<lparr>latch = (0, 0), psg1_sample = 0, psg2_sample = 40, psg3_sample = 0, psg4_sample = 0,
            bias_resolution = 1, resolution_old = 0, event_countdown = 7,
            resampler = \<lparr>sample_rates = (32768, 48000), written = []\<rparr>\<rparr>" 48000]
  by auto

text \<open>
  C6, as the claim states it, fails: \<open>S\<close> is not the sum over all four tone channels of
  the spec.  With both latches at 0 and the noise channel as the one channel at 40,
  the frame written is \<open>(0, 0)\<close>.
\<close>

theorem Tick_counterexample:
  "psg1_sample
     \<lparr>latch = (0, 0), psg1_sample = 0, psg2_sample = 0, psg3_sample = 0, psg4_sample = 40,
      bias_resolution = 0, resolution_old = 0, event_countdown = 0,
      resampler = \<lparr>sample_rates = (32768, 48000), written = []\<rparr>\<rparr> +
   psg2_sample
     \<lparr>latch = (0, 0), psg1_sample = 0, psg2_sample = 0, psg3_sample = 0, psg4_sample = 40,
      bias_resolution = 0, resolution_old = 0, event_countdown = 0,
      resampler = \<lparr>sample_rates = (32768, 48000), written = []\<rparr>\<rparr> +
   psg3_sample
     \<lparr>latch = (0, 0), psg1_sample = 0, psg2_sample = 0, psg3_sample = 0, psg4_sample = 40,
      bias_resolution = 0, resolution_old = 0, event_countdown = 0,
      resampler = \<lparr>sample_rates = (32768, 48000), written = []\<rparr>\<rparr> +
   psg4_sample
     \<lparr>latch = (0, 0), psg1_sample = 0, psg2_sample = 0, psg3_sample = 0, psg4_sample = 40,
      bias_resolution = 0, resolution_old = 0, event_countdown = 0,
      resampler = \<lparr>sample_rates = (32768, 48000), written = []\<rparr>\<rparr> = 40 \<and>
   Tick 48000
     \<lparr>latch = (0, 0), psg1_sample = 0, psg2_sample = 0, psg3_sample = 0, psg4_sample = 40,
      bias_resolution = 0, resolution_old = 0, event_countdown = 0,
      resampler = \<lparr>sample_rates = (32768, 48000), written = []\<rparr>\<rparr> =
   Inr \<lparr>latch = (0, 0), psg1_sample = 0, psg2_sample = 0, psg3_sample = 0, psg4_sample = 40,
        bias_resolution = 0, resolution_old = 0, event_countdown = 512,
        resampler = \<lparr>sample_rates = (32768, 48000), written = [(0, 0)]\<rparr>\<rparr> \<and>
   (0 :: rat, 0 :: rat) \<noteq> (40 / 512, 40 / 512)"
  by (simp add: Tick_def Tick_rates_def shift_right_def Let_def)

subsection \<open>The host audio callback\<close>

lemma store_Inr:
  "0 \<le> i \<Longrightarrow> i < int (length xs) \<Longrightarrow> store xs i v = Inr (xs[nat i := v])"
  by (simp add: store_def)

lemma peek_loop_result:
  assumes "n = nat (samples - x)" and "0 \<le> x" and "0 \<le> y" and "y < K"
    and "K = Available buffer" and "2 * samples \<le> int (length stream)"
  shows "\<exists>st'. peek_loop c x samples K y buffer stream = Inr st' \<and>
           length st' = length stream \<and>
           (\<forall>j < length stream.
              st' ! j =
                (if 2 * x \<le> int j \<and> int j < 2 * samples
                 then (let f = frames buffer ! nat ((y + (int j div 2 - x)) mod K)
                       in if even j then c (fst f) else c (snd f))
                 else stream ! j))"
  using assms
proof (induction n arbitrary: x y stream)
  case 0
  then have "\<not> x < samples" by simp
  then show ?case
    by (subst peek_loop.simps) auto
next
  case (Suc n)
  then have xs: "x < samples" by simp
  let ?f = "frames buffer ! nat y"
  let ?s1 = "stream[nat (x * 2) := c (fst ?f)]"
  let ?s2 = "?s1[nat (x * 2 + 1) := c (snd ?f)]"
  let ?y2 = "if y + 1 = K then 0 else y + 1"
  have pk: "Peek buffer y = ?f"
    using Suc.prems by (simp add: Peek_def)
  have st1: "store stream (x * 2) (c (fst ?f)) = Inr ?s1"
    using Suc.prems xs by (simp add: store_Inr)
  have st2: "store ?s1 (x * 2 + 1) (c (snd ?f)) = Inr ?s2"
    using Suc.prems xs by (simp add: store_Inr)
  have unf: "peek_loop c x samples K y buffer stream =
             peek_loop c (x + 1) samples K ?y2 buffer ?s2"
    by (subst peek_loop.simps) (simp add: xs pk st1 st2 Let_def)
  have y2: "0 \<le> ?y2" "?y2 < K"
    using Suc.prems by auto
  have y2m: "(?y2 + d) mod K = (y + 1 + d) mod K" for d
  proof (cases "y + 1 = K")
    case True
    then show ?thesis by (simp add: add.commute)
  next
    case False
    then show ?thesis by simp
  qed
  have "n = nat (samples - (x + 1))"
    using Suc.prems by simp
  from Suc.IH [OF this _ y2 Suc.prems(5), of ?s2] Suc.prems
  obtain st' where r: "peek_loop c (x + 1) samples K ?y2 buffer ?s2 = Inr st'"
    and len: "length st' = length stream"
    and el: "\<forall>j < length stream.
              st' ! j =
                (if 2 * (x + 1) \<le> int j \<and> int j < 2 * samples
                 then (let f = frames buffer ! nat ((?y2 + (int j div 2 - (x + 1))) mod K)
                       in if even j then c (fst f) else c (snd f))
                 else ?s2 ! j)"
    by auto
  have "st' ! j =
          (if 2 * x \<le> int j \<and> int j < 2 * samples
           then (let f = frames buffer ! nat ((y + (int j div 2 - x)) mod K)
                 in if even j then c (fst f) else c (snd f))
           else stream ! j)" if j: "j < length stream" for j
  proof -
    consider "int j = 2 * x" | "int j = 2 * x + 1" | "2 * (x + 1) \<le> int j" | "int j < 2 * x"
      by atomize_elim arith
    then show ?thesis
    proof cases
      case 1
      have "even (int j)" unfolding 1 by simp
      then have e: "even j" by simp
      have n: "j = nat (x * 2)" using 1 by simp
      have d: "int j div 2 = x" unfolding 1 by simp
      from el j 1 xs Suc.prems e d n show ?thesis
        by (simp add: Let_def)
    next
      case 2
      have "odd (int j)" unfolding 2 by simp
      then have e: "odd j" by simp
      have n: "j = nat (x * 2 + 1)" using 2 by simp
      have d: "int j div 2 = x" unfolding 2 by simp
      from el j 2 xs Suc.prems e d n show ?thesis
        by (simp add: Let_def)
    next
      case 3
      have "(?y2 + (int j div 2 - (x + 1))) mod K = (y + (int j div 2 - x)) mod K"
        using y2m [of "int j div 2 - (x + 1)"] by (simp add: algebra_simps)
      moreover have "j \<noteq> nat (x * 2)" "j \<noteq> nat (x * 2 + 1)"
        using 3 Suc.prems(2) by auto
      ultimately show ?thesis
        using el j 3 by (auto simp: Let_def)
    next
      case 4
      with el j Suc.prems show ?thesis
        by (auto simp: Let_def)
    qed
  qed
  with r len unf show ?case by auto
qed

lemma peek_loop_Inr:
  assumes "n = nat (samples - x)" and "0 \<le> x" and "2 * samples \<le> int (length stream)"
  shows "\<exists>st'. peek_loop c x samples K y buffer stream = Inr st' \<and>
           length st' = length stream"
  using assms
proof (induction n arbitrary: x y stream)
  case 0
  then have "\<not> x < samples" by simp
  then show ?case
    by (subst peek_loop.simps) auto
next
  case (Suc n)
  then have xs: "x < samples" by simp
  let ?f = "Peek buffer y"
  let ?s1 = "stream[nat (x * 2) := c (fst ?f)]"
  let ?s2 = "?s1[nat (x * 2 + 1) := c (snd ?f)]"
  let ?y2 = "if y + 1 = K then 0 else y + 1"
  have st1: "store stream (x * 2) (c (fst ?f)) = Inr ?s1"
    using Suc.prems xs by (simp add: store_Inr)
  have st2: "store ?s1 (x * 2 + 1) (c (snd ?f)) = Inr ?s2"
    using Suc.prems xs by (simp add: store_Inr)
  have unf: "peek_loop c x samples K y buffer stream =
             peek_loop c (x + 1) samples K ?y2 buffer ?s2"
    by (subst peek_loop.simps) (simp add: xs st1 st2 Let_def)
  have "n = nat (samples - (x + 1))"
    using Suc.prems by simp
  from Suc.IH [OF this, of ?s2 ?y2] Suc.prems unf show ?case
    by auto
qed

lemma read_loop_result:
  assumes "n = nat (samples - x)" and "0 \<le> x" and "samples - x \<le> Available buffer"
    and "2 * samples \<le> int (length stream)"
  shows "\<exists>st'. read_loop c x samples buffer stream =
                 Inr (st', buffer\<lparr>frames := drop n (frames buffer)\<rparr>) \<and>
           length st' = length stream \<and>
           (\<forall>j < length stream.
              st' ! j =
                (if 2 * x \<le> int j \<and> int j < 2 * samples
                 then (let f = frames buffer ! nat (int j div 2 - x)
                       in if even j then c (fst f) else c (snd f))
                 else stream ! j))"
  using assms
proof (induction n arbitrary: x buffer stream)
  case 0
  then have "\<not> x < samples" by simp
  then show ?case
    by (subst read_loop.simps) auto
next
  case (Suc n)
  then have xs: "x < samples" by simp
  with Suc.prems obtain f fs where fr: "frames buffer = f # fs"
    by (cases "frames buffer") (auto simp: Available_def)
  let ?b = "buffer\<lparr>frames := fs\<rparr>"
  let ?s1 = "stream[nat (x * 2) := c (fst f)]"
  let ?s2 = "?s1[nat (x * 2 + 1) := c (snd f)]"
  have rd: "Buffer_Read buffer = (f, ?b)"
    by (simp add: Buffer_Read_def fr)
  have st1: "store stream (x * 2) (c (fst f)) = Inr ?s1"
    using Suc.prems xs by (simp add: store_Inr)
  have st2: "store ?s1 (x * 2 + 1) (c (snd f)) = Inr ?s2"
    using Suc.prems xs by (simp add: store_Inr)
  have unf: "read_loop c x samples buffer stream = read_loop c (x + 1) samples ?b ?s2"
    by (subst read_loop.simps) (simp add: xs rd st1 st2 Let_def)
  have n: "n = nat (samples - (x + 1))"
    using Suc.prems by simp
  have av: "samples - (x + 1) \<le> Available ?b"
    using Suc.prems by (simp add: Available_def fr)
  from Suc.IH [OF n _ av, of ?s2] Suc.prems
  obtain st' where r: "read_loop c (x + 1) samples ?b ?s2 =
                         Inr (st', ?b\<lparr>frames := drop n (frames ?b)\<rparr>)"
    and len: "length st' = length stream"
    and el: "\<forall>j < length stream.
              st' ! j =
                (if 2 * (x + 1) \<le> int j \<and> int j < 2 * samples
                 then (let f = fs ! nat (int j div 2 - (x + 1))
                       in if even j then c (fst f) else c (snd f))
                 else ?s2 ! j)"
    by auto
  have b: "?b\<lparr>frames := drop n (frames ?b)\<rparr> = buffer\<lparr>frames := drop (Suc n) (frames buffer)\<rparr>"
    by (simp add: fr)
  have "st' ! j =
          (if 2 * x \<le> int j \<and> int j < 2 * samples
           then (let f = frames buffer ! nat (int j div 2 - x)
                 in if even j then c (fst f) else c (snd f))
           else stream ! j)" if j: "j < length stream" for j
  proof -
    consider "int j = 2 * x" | "int j = 2 * x + 1" | "2 * (x + 1) \<le> int j" | "int j < 2 * x"
      by atomize_elim arith
    then show ?thesis
    proof cases
      case 1
      have "even (int j)" unfolding 1 by simp
      then have e: "even j" by simp
      have n: "j = nat (x * 2)" using 1 by simp
      have d: "int j div 2 = x" unfolding 1 by simp
      from el j 1 xs Suc.prems e d n show ?thesis
        by (simp add: Let_def fr)
    next
      case 2
      have "odd (int j)" unfolding 2 by simp
      then have e: "odd j" by simp
      have n: "j = nat (x * 2 + 1)" using 2 by simp
      have d: "int j div 2 = x" unfolding 2 by simp
      from el j 2 xs Suc.prems e d n show ?thesis
        by (simp add: Let_def fr)
    next
      case 3
      then have "x + 1 \<le> int j div 2" by simp
      then have "nat (int j div 2 - x) = Suc (nat (int j div 2 - (x + 1)))" by simp
      moreover have "j \<noteq> nat (x * 2)" "j \<noteq> nat (x * 2 + 1)"
        using 3 Suc.prems(2) by auto
      ultimately show ?thesis
        using el j 3 by (auto simp: Let_def fr)
    next
      case 4
      with el j Suc.prems show ?thesis
        by (auto simp: Let_def)
    qed
  qed
  with r len unf b show ?case by auto
qed

lemma AudioCallback_read:
  assumes "2 * (byte_len div 2 div 2) \<le> length stream"
    and "2 * (byte_len div 2 div 2) \<le> length (frames buffer)"
  shows "\<exists>stream'. AudioCallback c buffer stream byte_len =
             Inr (stream', buffer\<lparr>frames := drop (byte_len div 2 div 2) (frames buffer)\<rparr>) \<and>
           length stream' = length stream \<and>
           (\<forall>x < byte_len div 2 div 2.
              stream' ! (2 * x) = c (fst (frames buffer ! x)) \<and>
              stream' ! (2 * x + 1) = c (snd (frames buffer ! x))) \<and>
           (\<forall>j < length stream. 2 * (byte_len div 2 div 2) \<le> j \<longrightarrow> stream' ! j = stream ! j)"
proof -
  let ?N = "byte_len div 2 div 2"
  have a: "AudioCallback c buffer stream byte_len = read_loop c 0 (int ?N) buffer stream"
    using assms(2) by (simp add: AudioCallback_def Available_def Let_def)
  have "int ?N - 0 \<le> Available buffer"
    using assms(2) by (simp add: Available_def)
  from read_loop_result [OF _ _ this, of ?N stream c] assms(1)
  obtain st' where r: "read_loop c 0 (int ?N) buffer stream =
                         Inr (st', buffer\<lparr>frames := drop ?N (frames buffer)\<rparr>)"
    and len: "length st' = length stream"
    and el: "\<forall>j < length stream.
              st' ! j =
                (if 0 \<le> int j \<and> int j < 2 * int ?N
                 then (let f = frames buffer ! nat (int j div 2 - 0)
                       in if even j then c (fst f) else c (snd f))
                 else stream ! j)"
    by auto
  have "st' ! (2 * x) = c (fst (frames buffer ! x)) \<and>
        st' ! (2 * x + 1) = c (snd (frames buffer ! x))" if "x < ?N" for x
  proof -
    from that assms(1) have "2 * x < length stream" "2 * x + 1 < length stream" by auto
    with el that show ?thesis by (simp add: Let_def)
  qed
  moreover have "st' ! j = stream ! j" if "j < length stream" "2 * ?N \<le> j" for j
    using el that by auto
  ultimately show ?thesis
    using a r len by auto
qed

lemma AudioCallback_peek:
  assumes "2 * (byte_len div 2 div 2) \<le> length stream"
    and "0 < length (frames buffer)"
    and "length (frames buffer) < 2 * (byte_len div 2 div 2)"
  shows "\<exists>stream'. AudioCallback c buffer stream byte_len = Inr (stream', buffer) \<and>
           length stream' = length stream \<and>
           (\<forall>x < byte_len div 2 div 2.
              stream' ! (2 * x) = c (fst (frames buffer ! (x mod length (frames buffer)))) \<and>
              stream' ! (2 * x + 1) = c (snd (frames buffer ! (x mod length (frames buffer))))) \<and>
           (\<forall>j < length stream. 2 * (byte_len div 2 div 2) \<le> j \<longrightarrow> stream' ! j = stream ! j)"
proof -
  let ?N = "byte_len div 2 div 2"
  let ?K = "length (frames buffer)"
  have a: "AudioCallback c buffer stream byte_len =
             (case peek_loop c 0 (int ?N) (int ?K) 0 buffer stream of
                Inl e \<Rightarrow> Inl e
              | Inr stream' \<Rightarrow> Inr (stream', buffer))"
    using assms(3) by (simp add: AudioCallback_def Available_def Let_def)
  have k: "(0::int) < int ?K" "int ?K = Available buffer"
    using assms(2) by (simp_all add: Available_def)
  from peek_loop_result [OF _ _ _ k, of ?N "int ?N" 0 stream c] assms(1)
  obtain st' where r: "peek_loop c 0 (int ?N) (int ?K) 0 buffer stream = Inr st'"
    and len: "length st' = length stream"
    and el: "\<forall>j < length stream.
              st' ! j =
                (if 2 * 0 \<le> int j \<and> int j < 2 * int ?N
                 then (let f = frames buffer ! nat ((0 + (int j div 2 - 0)) mod int ?K)
                       in if even j then c (fst f) else c (snd f))
                 else stream ! j)"
    by auto
  have m: "nat (int x mod int ?K) = x mod ?K" for x
    by (simp add: nat_mod_distrib)
  have "st' ! (2 * x) = c (fst (frames buffer ! (x mod ?K))) \<and>
        st' ! (2 * x + 1) = c (snd (frames buffer ! (x mod ?K)))" if "x < ?N" for x
  proof -
    from that assms(1) have "2 * x < length stream" "2 * x + 1 < length stream" by auto
    with el that m [of x] show ?thesis by (simp add: Let_def)
  qed
  moreover have "st' ! j = stream ! j" if "j < length stream" "2 * ?N \<le> j" for j
    using el that by auto
  ultimately show ?thesis
    using a r len by auto
qed

lemma AudioCallback_Inr:
  assumes "2 * (byte_len div 2 div 2) \<le> length stream"
  shows "\<exists>stream' buffer'. AudioCallback c buffer stream byte_len = Inr (stream', buffer') \<and>
           length stream' = length stream"
proof (cases "2 * (byte_len div 2 div 2) \<le> length (frames buffer)")
  case True
  from AudioCallback_read [OF assms this] show ?thesis by blast
next
  case False
  let ?N = "byte_len div 2 div 2"
  let ?K = "length (frames buffer)"
  have a: "AudioCallback c buffer stream byte_len =
             (case peek_loop c 0 (int ?N) (int ?K) 0 buffer stream of
                Inl e \<Rightarrow> Inl e
              | Inr stream' \<Rightarrow> Inr (stream', buffer))"
    using False by (simp add: AudioCallback_def Available_def Let_def)
  from peek_loop_Inr [of ?N "int ?N" 0 stream c "int ?K" 0 buffer] assms
  obtain st' where "peek_loop c 0 (int ?N) (int ?K) 0 buffer stream = Inr st'"
    "length st' = length stream"
    by auto
  with a show ?thesis by simp
qed

text \<open>
  C2, as the callback is written.  For a request of \<open>N\<close> stereo frames into an array that
  has room for them: if the buffer holds at least \<open>2 * N\<close> frames, the callback takes
  the \<open>N\<close> oldest out of the buffer and converts each; if it holds \<open>K\<close> frames with
  \<open>0 < K < 2 * N\<close>, the callback takes none out and writes \<open>N\<close> frames, the frame at
  offset \<open>x mod K\<close> for the \<open>x\<close>-th, each converted.  In every case it returns, with the
  array as long as it was.
\<close>

theorem AudioCallback_frames:
  assumes "2 * (byte_len div 2 div 2) \<le> length stream"
  shows "(let N = byte_len div 2 div 2; K = length (frames buffer)
          in (2 * N \<le> K \<longrightarrow>
                (\<exists>stream'. AudioCallback c buffer stream byte_len =
                     Inr (stream', buffer\<lparr>frames := drop N (frames buffer)\<rparr>) \<and>
                   length stream' = length stream \<and>
                   (\<forall>x < N. stream' ! (2 * x) = c (fst (frames buffer ! x)) \<and>
                            stream' ! (2 * x + 1) = c (snd (frames buffer ! x))) \<and>
                   (\<forall>j < length stream. 2 * N \<le> j \<longrightarrow> stream' ! j = stream ! j))) \<and>
             (0 < K \<and> K < 2 * N \<longrightarrow>
                (\<exists>stream'. AudioCallback c buffer stream byte_len = Inr (stream', buffer) \<and>
                   length stream' = length stream \<and>
                   (\<forall>x < N. stream' ! (2 * x) = c (fst (frames buffer ! (x mod K))) \<and>
                            stream' ! (2 * x + 1) = c (snd (frames buffer ! (x mod K)))) \<and>
                   (\<forall>j < length stream. 2 * N \<le> j \<longrightarrow> stream' ! j = stream ! j)))) \<and>
         (\<exists>stream' buffer'. AudioCallback c buffer stream byte_len = Inr (stream', buffer') \<and>
            length stream' = length stream)"
  unfolding Let_def
  using AudioCallback_read [OF assms, of buffer c] AudioCallback_peek [OF assms, of buffer c]
    AudioCallback_Inr [OF assms, of c buffer]
  by blast

text \<open>
  C2, as the claim states it, fails: the buffer holds three frames and two are asked
  for, yet the callback takes none out of the buffer.
\<close>

theorem AudioCallback_counterexample:
  "int (8 div 2 div 2) \<le> Available three_frames \<and>
   AudioCallback id three_frames [0, 0, 0, 0] 8 = Inr ([1, 2, 3, 4], three_frames) \<and>
   Available three_frames \<noteq> Available three_frames - int (8 div 2 div 2)"
  by (simp add: AudioCallback_def Available_def three_frames_def Let_def
        peek_loop.simps Peek_def store_def)

theorem AudioCallback_frames_witness:
  "(\<exists>stream'. AudioCallback id three_frames [0, 0, 0, 0] 8 = Inr (stream', three_frames) \<and>
      stream' ! 0 = 1 \<and> stream' ! 1 = 2 \<and> stream' ! 2 = 3 \<and> stream' ! 3 = 4) \<and>
   (\<exists>stream'. AudioCallback id three_frames [0, 0, 9] 6 =
        Inr (stream', three_frames\<lparr>frames := [(3, 4), (5, 6)]\<rparr>) \<and>
      stream' ! 0 = 1 \<and> stream' ! 1 = 2 \<and> stream' ! 2 = 9)"
proof -
  have f: "frames three_frames = [(1, 2), (3, 4), (5, 6)]"
    by (simp add: three_frames_def)
  have "\<exists>stream'. AudioCallback id three_frames [0, 0, 0, 0] 8 = Inr (stream', three_frames) \<and>
      stream' ! 0 = 1 \<and> stream' ! 1 = 2 \<and> stream' ! 2 = 3 \<and> stream' ! 3 = 4"
  proof -
    from AudioCallback_frames [of 8 "[0, 0, 0, 0]" three_frames id]
    obtain s where s: "AudioCallback id three_frames [0, 0, 0, 0] 8 = Inr (s, three_frames)"
      and el: "\<forall>x < 2. s ! (2 * x) = fst (frames three_frames ! (x mod 3)) \<and>
                     s ! (2 * x + 1) = snd (frames three_frames ! (x mod 3))"
      by (auto simp: Let_def f)
    have "s ! 0 = 1 \<and> s ! 1 = 2"
      using el [rule_format, of 0] by (simp add: f)
    moreover have "s ! 2 = 3 \<and> s ! 3 = 4"
      using el [rule_format, of 1] by (simp add: f)
    ultimately show ?thesis using s by simp
  qed
  moreover
  have "\<exists>stream'. AudioCallback id three_frames [0, 0, 9] 6 =
        Inr (stream', three_frames\<lparr>frames := [(3, 4), (5, 6)]\<rparr>) \<and>
      stream' ! 0 = 1 \<and> stream' ! 1 = 2 \<and> stream' ! 2 = 9"
  proof -
    from AudioCallback_frames [of 6 "[0, 0, 9]" three_frames id]
    obtain s where s: "AudioCallback id three_frames [0, 0, 9] 6 =
                         Inr (s, three_frames\<lparr>frames := drop 1 (frames three_frames)\<rparr>)"
      and el: "\<forall>x < 1. s ! (2 * x) = fst (frames three_frames ! x) \<and>
                     s ! (2 * x + 1) = snd (frames three_frames ! x)"
      and re: "\<forall>j < 3. 2 \<le> j \<longrightarrow> s ! j = [0, 0, 9 :: 16 word] ! j"
      by (auto simp: Let_def f)
    have "s ! 0 = 1 \<and> s ! 1 = 2"
      using el [rule_format, of 0] by (simp add: f)
    moreover have "s ! 2 = 9"
      using re [rule_format, of 2] by simp
    ultimately show ?thesis using s by (simp add: f)
  qed
  ultimately show ?thesis by blast
qed

end
